theory Spec2Isabelle
  imports Main "HOL-Library.Sublist"
begin

section \<open>Strings\<close>

text \<open>
  Python strings are modelled as \<^typ>\<open>string\<close>; a \<^typ>\<open>char\<close> stands for one code
  point below 256, so \<^const>\<open>length\<close> is Python's \<^verbatim>\<open>len\<close> on such strings.
\<close>

definition startswith :: "string \<Rightarrow> string \<Rightarrow> bool" where
  "startswith s p = prefix p s"

text \<open>\<^verbatim>\<open>s.split(sep)[0]\<close> for a one-character separator: the part before its first occurrence.\<close>

definition split_first :: "char \<Rightarrow> string \<Rightarrow> string" where
  "split_first sep s = takeWhile (\<lambda>c. c \<noteq> sep) s"

text \<open>\<^verbatim>\<open>s.split(sep)\<close> for a one-character separator; the result is never empty.\<close>

fun split_on :: "char \<Rightarrow> string \<Rightarrow> string list" where
  "split_on sep [] = [[]]"
| "split_on sep (c # cs) =
     (if c = sep then [] # split_on sep cs
      else (case split_on sep cs of
              [] \<Rightarrow> [[c]]
            | w # ws \<Rightarrow> (c # w) # ws))"

text \<open>\<^verbatim>\<open>sep.join(parts)\<close>.\<close>

fun join_with :: "string \<Rightarrow> string list \<Rightarrow> string" where
  "join_with sep [] = []"
| "join_with sep [p] = p"
| "join_with sep (p # q # ps) = p @ sep @ join_with sep (q # ps)"

section \<open>Path handling\<close>

text \<open>
  The two functions of \<^verbatim>\<open>os.path\<close> that the resolver calls, in their POSIX form
  (\<^verbatim>\<open>posixpath.join\<close> with two arguments and \<^verbatim>\<open>posixpath.normpath\<close>).
\<close>

definition path_join :: "string \<Rightarrow> string \<Rightarrow> string" where
  "path_join a b =
     (if startswith b ''/'' then b
      else if a = [] \<or> (a \<noteq> [] \<and> last a = CHR ''/'') then a @ b
      else a @ ''/'' @ b)"

fun normpath_comps :: "bool \<Rightarrow> string list \<Rightarrow> string list \<Rightarrow> string list" where
  "normpath_comps rooted new_comps [] = new_comps"
| "normpath_comps rooted new_comps (cmp # comps) =
     (if cmp = [] \<or> cmp = ''.'' then normpath_comps rooted new_comps comps
      else if cmp \<noteq> ''..'' \<or> (\<not> rooted \<and> new_comps = [])
                \<or> (new_comps \<noteq> [] \<and> last new_comps = ''..'')
        then normpath_comps rooted (new_comps @ [cmp]) comps
      else if new_comps \<noteq> [] then normpath_comps rooted (butlast new_comps) comps
      else normpath_comps rooted new_comps comps)"

definition normpath :: "string \<Rightarrow> string" where
  "normpath path =
     (if path = [] then ''.''
      else
        let initial_slashes =
              (if startswith path ''/'' then
                 (if startswith path ''//'' \<and> \<not> startswith path ''///'' then 2 else 1)
               else (0::nat));
            comps = normpath_comps (initial_slashes \<noteq> 0) [] (split_on CHR ''/'' path);
            joined = replicate initial_slashes CHR ''/'' @ join_with ''/'' comps
        in if joined = [] then ''.'' else joined)"

subsection \<open>The extractor's own path helpers\<close>

definition EXTERNAL_PREFIXES :: "string list" where
  "EXTERNAL_PREFIXES = [''http://'', ''https://'', ''data:'']"

definition is_external_url :: "string \<Rightarrow> bool" where
  "is_external_url path = list_ex (startswith path) EXTERNAL_PREFIXES"

text \<open>The loop of \<^verbatim>\<open>_normalize_path\<close>: drop leading \<^verbatim>\<open>../\<close> while there is one.\<close>

function strip_parent_refs :: "string \<Rightarrow> string" where
  "strip_parent_refs normalized =
     (if startswith normalized ''../'' then strip_parent_refs (drop 3 normalized)
      else normalized)"
  by pat_completeness auto
termination
  by (relation "measure length") (auto simp: startswith_def prefix_def)

definition normalize_path :: "string \<Rightarrow> string" where
  "normalize_path path =
     strip_parent_refs (map (\<lambda>c. if c = CHR 0x5C then CHR ''/'' else c) path)"

definition resolve_image_path :: "string \<Rightarrow> string \<Rightarrow> string option" where
  "resolve_image_path img_src html_rel_dir =
     (if is_external_url img_src then Some img_src
      else
        let base_src = split_first CHR ''?'' (split_first CHR ''#'' img_src)
        in if base_src = [] then None
           else Some (normalize_path (normpath (path_join html_rel_dir base_src))))"

text \<open>
  The loop of \<^verbatim>\<open>resolve_and_validate_images\<close>, with its two accumulators: the set
  \<^verbatim>\<open>seen\<close> and the list \<^verbatim>\<open>result\<close>. An empty resolved string is falsy in Python and is
  skipped like \<^verbatim>\<open>None\<close>.
\<close>

fun resolve_loop ::
  "string \<Rightarrow> string set \<Rightarrow> string set \<Rightarrow> string list \<Rightarrow> string list \<Rightarrow> string list" where
  "resolve_loop html_rel_dir valid_images seen result [] = result"
| "resolve_loop html_rel_dir valid_images seen result (img_src # raw_images) =
     (case resolve_image_path img_src html_rel_dir of
        None \<Rightarrow> resolve_loop html_rel_dir valid_images seen result raw_images
      | Some resolved \<Rightarrow>
          if resolved = [] \<or> resolved \<in> seen
            then resolve_loop html_rel_dir valid_images seen result raw_images
          else if is_external_url resolved \<or> resolved \<in> valid_images
            then resolve_loop html_rel_dir valid_images
                   (insert resolved seen) (result @ [resolved]) raw_images
          else resolve_loop html_rel_dir valid_images seen result raw_images)"

definition resolve_and_validate_images ::
  "string list \<Rightarrow> string \<Rightarrow> string set \<Rightarrow> string list" where
  "resolve_and_validate_images raw_images html_rel_dir valid_images =
     resolve_loop html_rel_dir valid_images {} [] raw_images"

section \<open>Text helpers\<close>

text \<open>
  \<^verbatim>\<open>str.strip()\<close> removes the characters for which \<^verbatim>\<open>str.isspace\<close> holds, and
  \<^verbatim>\<open>str.lower()\<close> maps the upper-case letters, here for code points below 256.
\<close>

definition py_isspace :: "char \<Rightarrow> bool" where
  "py_isspace c =
     (let n = (of_char c :: nat)
      in (9 \<le> n \<and> n \<le> 13) \<or> (28 \<le> n \<and> n \<le> 32) \<or> n = 133 \<or> n = 160)"

definition strip :: "string \<Rightarrow> string" where
  "strip s = rev (dropWhile py_isspace (rev (dropWhile py_isspace s)))"

definition py_lower_char :: "char \<Rightarrow> char" where
  "py_lower_char c =
     (let n = (of_char c :: nat)
      in if (65 \<le> n \<and> n \<le> 90) \<or> (192 \<le> n \<and> n \<le> 222 \<and> n \<noteq> 215)
         then char_of (n + 32) else c)"

definition lower :: "string \<Rightarrow> string" where
  "lower s = map py_lower_char s"

text \<open>\<^verbatim>\<open>kw in s\<close> on strings: \<open>kw\<close> occurs in \<open>s\<close> as a contiguous run.\<close>

fun str_contains :: "string \<Rightarrow> string \<Rightarrow> bool" where
  "str_contains kw [] = (kw = [])"
| "str_contains kw (c # cs) = (prefix kw (c # cs) \<or> str_contains kw cs)"

section \<open>The parsed document\<close>

text \<open>
  A parsed tree as the extractor sees it: a \<^verbatim>\<open>Tag\<close> with its name, its attribute
  dictionary and its children, or a \<^verbatim>\<open>NavigableString\<close>. An attribute value is a string,
  or a list of strings for a multi-valued attribute such as \<^verbatim>\<open>class\<close>. Comments and
  other non-text strings, which \<^verbatim>\<open>get_text\<close> leaves out, are not part of the model.
\<close>

datatype attr_value = AttrStr string | AttrList "string list"

datatype node =
    Tag string "(string \<times> attr_value) list" "node list"
  | NavigableString string

fun tag_name :: "node \<Rightarrow> string" where
  "tag_name (Tag nm ats cs) = nm"
| "tag_name (NavigableString s) = []"

fun attr_get :: "node \<Rightarrow> string \<Rightarrow> attr_value option" where
  "attr_get (Tag nm ats cs) k = map_of ats k"
| "attr_get (NavigableString s) k = None"

fun children :: "node \<Rightarrow> node list" where
  "children (Tag nm ats cs) = cs"
| "children (NavigableString s) = []"

text \<open>\<^verbatim>\<open>isinstance(child, Tag) and child.name\<close>.\<close>

fun is_named_tag :: "node \<Rightarrow> bool" where
  "is_named_tag (Tag nm ats cs) = (nm \<noteq> [])"
| "is_named_tag (NavigableString s) = False"

definition tag_children :: "node \<Rightarrow> node list" where
  "tag_children el = filter is_named_tag (children el)"

text \<open>\<^verbatim>\<open>el.descendants\<close>: every node below \<open>el\<close>, in document order.\<close>

fun descendants :: "node \<Rightarrow> node list" where
  "descendants (Tag nm ats cs) = concat (map (\<lambda>c. c # descendants c) cs)"
| "descendants (NavigableString s) = []"

fun has_name :: "string \<Rightarrow> node \<Rightarrow> bool" where
  "has_name t (Tag nm ats cs) = (nm = t)"
| "has_name t (NavigableString s) = False"

definition find_all :: "string \<Rightarrow> node \<Rightarrow> node list" where
  "find_all t el = filter (has_name t) (descendants el)"

definition find_first :: "string \<Rightarrow> node \<Rightarrow> node option" where
  "find_first t el = (case find_all t el of [] \<Rightarrow> None | x # xs \<Rightarrow> Some x)"

text \<open>The strings below a node in document order, and the two forms of \<^verbatim>\<open>get_text\<close>.\<close>

fun all_strings :: "node \<Rightarrow> string list" where
  "all_strings (Tag nm ats cs) = concat (map all_strings cs)"
| "all_strings (NavigableString s) = [s]"

definition get_text :: "node \<Rightarrow> string" where
  "get_text el = concat (all_strings el)"

definition get_text_strip :: "node \<Rightarrow> string" where
  "get_text_strip el = concat (filter (\<lambda>s. s \<noteq> []) (map strip (all_strings el)))"

text \<open>Python truthiness of what \<^verbatim>\<open>el.get(key)\<close> returns.\<close>

fun truthy :: "attr_value option \<Rightarrow> bool" where
  "truthy None = False"
| "truthy (Some (AttrStr s)) = (s \<noteq> [])"
| "truthy (Some (AttrList l)) = (l \<noteq> [])"

section \<open>Header detection\<close>

definition HEADING_TAGS :: "string list" where
  "HEADING_TAGS = [''h1'', ''h2'', ''h3'', ''h4'', ''h5'', ''h6'']"

definition header_keywords :: "string list" where
  "header_keywords =
     [''title'', ''heading'', ''chapter-head'', ''ch-title'', ''section-title'',
      ''chapter-label'', ''ch-label'', ''title-prefix'', ''chapter-number'',
      ''label'', ''title-text'']"

text \<open>The string that \<^verbatim>\<open>is_generic_header\<close> builds from \<^verbatim>\<open>class\<close> and \<^verbatim>\<open>id\<close>.\<close>

definition combined_class_id :: "node \<Rightarrow> string" where
  "combined_class_id element =
     (let cls = (case attr_get element ''class'' of
                   Some (AttrList l) \<Rightarrow> join_with '' '' l
                 | Some (AttrStr s) \<Rightarrow> s
                 | None \<Rightarrow> []);
          id_str = (case attr_get element ''id'' of
                      Some (AttrStr s) \<Rightarrow> s
                    | Some (AttrList l) \<Rightarrow> []
                    | None \<Rightarrow> [])
      in lower (cls @ '' '' @ id_str))"

text \<open>
  \<^verbatim>\<open>is_generic_header\<close>; its argument is \<^verbatim>\<open>Optional[Tag]\<close>, and every caller passes a
  tag or \<^verbatim>\<open>None\<close>.
\<close>

fun is_generic_header :: "node option \<Rightarrow> bool" where
  "is_generic_header None = False"
| "is_generic_header (Some (NavigableString s)) = False"
| "is_generic_header (Some (Tag nm ats cs)) =
     (if nm = [] then False
      else if nm \<in> set HEADING_TAGS then True
      else if map_of ats ''role'' = Some (AttrStr ''heading'') then True
      else if list_ex (\<lambda>kw. str_contains kw (combined_class_id (Tag nm ats cs))) header_keywords
        then (let text = get_text_strip (Tag nm ats cs)
              in 0 < length text \<and> length text < 200)
      else False)"

section \<open>Boilerplate removal\<close>

text \<open>
  The test before \<^verbatim>\<open>junk.decompose()\<close>: the element is not a header and no tag below it is.
\<close>

definition decomposable :: "node \<Rightarrow> bool" where
  "decomposable junk =
     (\<not> is_generic_header (Some junk)
      \<and> \<not> list_ex (\<lambda>c. is_generic_header (Some c)) (filter is_named_tag (descendants junk)))"

text \<open>
  One pass of the stripping loop, for one junk tag name. The source walks the list
  \<^verbatim>\<open>body.find_all(junk_tag)\<close>, taken before the pass, in document order, and removes an
  element from the tree when the test holds. An element met in the walk still has the
  subtree it had when the pass began (what was removed before it lies in earlier subtrees),
  and the elements below a removed one are gone with it; so the pass removes the outermost
  matching elements that pass the test and goes on into every element that is kept.
\<close>

fun strip_pass :: "string \<Rightarrow> node \<Rightarrow> node" where
  "strip_pass junk_tag (Tag nm ats cs) =
     Tag nm ats
       (map (strip_pass junk_tag)
          (filter (\<lambda>c. \<not> (has_name junk_tag c \<and> decomposable c)) cs))"
| "strip_pass junk_tag (NavigableString s) = NavigableString s"

definition JUNK_TAGS :: "string list" where
  "JUNK_TAGS = [''nav'', ''aside'', ''script'', ''style'', ''footer'', ''header'']"

definition strip_boilerplate :: "node \<Rightarrow> node" where
  "strip_boilerplate body = fold strip_pass JUNK_TAGS body"

section \<open>Wrapper resolution\<close>

text \<open>
  The \<^verbatim>\<open>while True\<close> loop that walks down from \<^verbatim>\<open>body\<close>. All three branches taken
  when the child count is not one leave the loop, so they are one case here.
\<close>

function find_content_container :: "node \<Rightarrow> node" where
  "find_content_container current_container =
     (case tag_children current_container of
        [only_child] \<Rightarrow> find_content_container only_child
      | _ \<Rightarrow> current_container)"
  by pat_completeness auto
termination
proof (relation "measure size")
  show "wf (measure (size :: node \<Rightarrow> nat))" by simp
next
  fix current_container only_child :: node and others :: "node list"
  assume "tag_children current_container = only_child # others"
  then have "only_child \<in> set (filter is_named_tag (children current_container))"
    by (simp add: tag_children_def)
  then have "only_child \<in> set (children current_container)" by simp
  then show "(only_child, current_container) \<in> measure size"
    by (cases current_container) (auto simp: less_Suc_eq_le size_list_estimation')
qed

declare find_content_container.simps [simp del]

definition CONTAINER_TAGS :: "string list" where
  "CONTAINER_TAGS = [''div'', ''section'', ''article'']"

text \<open>What one direct child contributes when no direct child is a header.\<close>

definition unwrap_child :: "node \<Rightarrow> node list" where
  "unwrap_child child =
     (if tag_name child \<in> set CONTAINER_TAGS then
        (let child_elements = tag_children child
         in if child_elements \<noteq> [] then child_elements
            else if strip (get_text child) \<noteq> [] then [child]
            else [])
      else [child])"

definition content_children :: "node \<Rightarrow> node list" where
  "content_children current_container =
     (let all_direct_children = tag_children current_container;
          direct_headers = filter (\<lambda>c. is_generic_header (Some c)) all_direct_children
      in if direct_headers \<noteq> [] then all_direct_children
         else concat (map unwrap_child all_direct_children))"

section \<open>Image references of an element\<close>

text \<open>\<^verbatim>\<open>src = el.get('src')\<close> followed by \<^verbatim>\<open>if src and isinstance(src, str)\<close>.\<close>

definition nonempty_str :: "attr_value option \<Rightarrow> string option" where
  "nonempty_str v = (case v of Some (AttrStr s) \<Rightarrow> (if s \<noteq> [] then Some s else None) | _ \<Rightarrow> None)"

definition img_src :: "node \<Rightarrow> string option" where
  "img_src el = nonempty_str (attr_get el ''src'')"

text \<open>\<^verbatim>\<open>href = el.get('href') or el.get('xlink:href')\<close>, then the same test.\<close>

definition image_href :: "node \<Rightarrow> string option" where
  "image_href el =
     nonempty_str (if truthy (attr_get el ''href'') then attr_get el ''href''
                   else attr_get el ''xlink:href'')"

definition child_images :: "node \<Rightarrow> string list" where
  "child_images child =
     (let found = List.map_filter img_src (find_all ''img'' child)
                  @ List.map_filter image_href (find_all ''image'' child);
          own = (if tag_name child = ''img'' then img_src child
                 else if tag_name child = ''image'' then image_href child
                 else None)
      in case own of
           None \<Rightarrow> found
         | Some ref \<Rightarrow> (if ref \<in> set found then found else found @ [ref]))"

section \<open>Section segmentation\<close>

datatype py_error = ZeroDivisionError

text \<open>
  A block and a section, as the dictionaries the extractor builds. The field for the image
  list has type \<open>'i\<close>: inside the loop it is the address of a list object in the store,
  in the value handed to the caller it is the list itself. \<open>blk_html\<close> holds the element
  that \<^verbatim>\<open>str(child)\<close> serialises; a block without the key \<^verbatim>\<open>is_header\<close> has
  \<open>blk_is_header = False\<close>.
\<close>

record 'i block =
  blk_tag :: string
  blk_text :: string
  blk_html :: node
  blk_images :: 'i
  blk_is_header :: bool

record 'i content_section =
  sec_header :: string
  sec_content :: "'i block list"
  sec_images :: 'i

text \<open>
  The state of the grouping loop. The image lists are Python list objects that the loop
  shares and extends in place, so they live in a store from addresses to lists.
\<close>

record seg_state =
  store :: "nat \<Rightarrow> string list"
  next_addr :: nat
  sections :: "nat content_section list"
  current_header :: "string option"
  current_content :: "nat block list"
  current_images :: nat

text \<open>Before the loop: no section, no header, and a fresh empty list for \<^verbatim>\<open>current_images\<close>.\<close>

definition initial_state :: seg_state where
  "initial_state =
     \<lparr>store = (\<lambda>a. []), next_addr = 1, sections = [],
      current_header = None, current_content = [], current_images = 0\<rparr>"

text \<open>
  \<^verbatim>\<open>(len(links_text) / len(text)) > 0.70\<close>. The division raises for an empty text. The
  quotient of two lengths compares with the literal as the exact fraction does
  (for every text shorter than a million billion characters), so the comparison is written on integers.
\<close>

definition link_ratio_exceeds :: "nat \<Rightarrow> nat \<Rightarrow> py_error + bool" where
  "link_ratio_exceeds links_len text_len =
     (if text_len = 0 then Inl ZeroDivisionError
      else Inr (7 * text_len < 10 * links_len))"

definition links_text :: "node \<Rightarrow> string" where
  "links_text child = concat (map get_text_strip (find_all ''a'' child))"

text \<open>\<^verbatim>\<open>current_header or current_content\<close>.\<close>

definition section_open :: "seg_state \<Rightarrow> bool" where
  "section_open st =
     ((case current_header st of None \<Rightarrow> False | Some h \<Rightarrow> h \<noteq> []) \<or> current_content st \<noteq> [])"

text \<open>\<^verbatim>\<open>current_header or 'Intro'\<close>.\<close>

definition header_or_intro :: "string option \<Rightarrow> string" where
  "header_or_intro h = (case h of None \<Rightarrow> ''Intro'' | Some t \<Rightarrow> (if t = [] then ''Intro'' else t))"

definition emit_section :: "seg_state \<Rightarrow> nat content_section list" where
  "emit_section st =
     (if section_open st
      then sections st @
             [\<lparr>sec_header = header_or_intro (current_header st),
               sec_content = current_content st,
               sec_images = current_images st\<rparr>]
      else sections st)"

text \<open>
  One iteration of \<^verbatim>\<open>for child in content_children\<close>. The list \<^verbatim>\<open>child_images\<close> is a new
  object at address \<open>a\<close>. A header makes \<^verbatim>\<open>current_images\<close> that same object; any other
  kept element extends the object \<^verbatim>\<open>current_images\<close> refers to.
\<close>

definition segment_step :: "node \<Rightarrow> seg_state \<Rightarrow> py_error + seg_state" where
  "segment_step child st =
     (let a = next_addr st;
          st1 = st\<lparr>store := (store st)(a := child_images child), next_addr := Suc a\<rparr>;
          generic_header = is_generic_header (Some child);
          text = get_text_strip child
      in case (if \<not> generic_header \<and> 40 < length text
               then link_ratio_exceeds (length (links_text child)) (length text)
               else Inr False) of
           Inl e \<Rightarrow> Inl e
         | Inr link_heavy \<Rightarrow>
             if \<not> generic_header \<and> (link_heavy \<or> (text = [] \<and> child_images child = []))
               then Inr st1
             else if generic_header then
               Inr (st1\<lparr>sections := emit_section st1,
                        current_header := Some (strip (get_text child)),
                        current_content :=
                          [\<lparr>blk_tag = tag_name child, blk_text = strip (get_text child),
                            blk_html = child, blk_images = a, blk_is_header = True\<rparr>],
                        current_images := a\<rparr>)
             else
               Inr (st1\<lparr>store := (store st1)
                                  (current_images st1 :=
                                     store st1 (current_images st1) @ store st1 a),
                        current_content := current_content st1 @
                          [\<lparr>blk_tag = tag_name child, blk_text = strip (get_text child),
                            blk_html = child, blk_images = a, blk_is_header = False\<rparr>]\<rparr>))"

fun segment_loop :: "node list \<Rightarrow> seg_state \<Rightarrow> py_error + seg_state" where
  "segment_loop [] st = Inr st"
| "segment_loop (child # rest) st =
     (case segment_step child st of
        Inl e \<Rightarrow> Inl e
      | Inr st' \<Rightarrow> segment_loop rest st')"

text \<open>What the caller reads from the returned dictionaries: each address replaced by its list.\<close>

definition read_block :: "(nat \<Rightarrow> string list) \<Rightarrow> nat block \<Rightarrow> string list block" where
  "read_block h b =
     \<lparr>blk_tag = blk_tag b, blk_text = blk_text b, blk_html = blk_html b,
      blk_images = h (blk_images b), blk_is_header = blk_is_header b\<rparr>"

definition read_section :: "(nat \<Rightarrow> string list) \<Rightarrow> nat content_section \<Rightarrow> string list content_section" where
  "read_section h sec =
     \<lparr>sec_header = sec_header sec,
      sec_content = map (read_block h) (sec_content sec),
      sec_images = h (sec_images sec)\<rparr>"

text \<open>The grouping part of \<^verbatim>\<open>extract_content_sections\<close>: the loop, then the final section.\<close>

definition segment :: "node list \<Rightarrow> py_error + string list content_section list" where
  "segment elems =
     (case segment_loop elems initial_state of
        Inl e \<Rightarrow> Inl e
      | Inr st \<Rightarrow> Inr (map (read_section (store st)) (emit_section st)))"

section \<open>Extraction from a file\<close>

text \<open>
  What the file system and the two parsers answer for one path: whether the path exists,
  whether \<^verbatim>\<open>open\<close> succeeds, and what each parser returns on the file's contents
  (\<open>None\<close> when it raises, which includes a failure to read or decode the file).
\<close>

record html_file =
  path_exists :: bool
  open_succeeds :: bool
  parse_lxml_xml :: "node option"
  parse_html_parser :: "node option"

text \<open>
  The \<^verbatim>\<open>try\<close> block: \<open>None\<close> when the outer \<^verbatim>\<open>except\<close> is reached, that is when
  \<^verbatim>\<open>open\<close> raises or when both parsers do.
\<close>

definition load_soup :: "html_file \<Rightarrow> node option" where
  "load_soup f =
     (if \<not> open_succeeds f then None
      else case parse_lxml_xml f of
             Some soup \<Rightarrow> Some soup
           | None \<Rightarrow> parse_html_parser f)"

definition sections_of_body :: "node \<Rightarrow> py_error + string list content_section list" where
  "sections_of_body body =
     segment (content_children (find_content_container (strip_boilerplate body)))"

definition extract_content_sections ::
  "html_file \<Rightarrow> py_error + string list content_section list" where
  "extract_content_sections f =
     (if \<not> path_exists f then Inr []
      else case load_soup f of
             None \<Rightarrow> Inr []
           | Some soup \<Rightarrow>
               (case find_first ''body'' soup of
                  None \<Rightarrow> Inr []
                | Some body \<Rightarrow> sections_of_body body))"

text \<open>
  The two assignments \<^verbatim>\<open>extract_book_content\<close> makes for every section of a file: the
  section's list and each block's list are replaced by their resolved and validated form.
\<close>

definition resolve_block :: "string \<Rightarrow> string set \<Rightarrow> string list block \<Rightarrow> string list block" where
  "resolve_block html_rel_dir valid_images b =
     b\<lparr>blk_images := resolve_and_validate_images (blk_images b) html_rel_dir valid_images\<rparr>"

definition resolve_section ::
  "string \<Rightarrow> string set \<Rightarrow> string list content_section \<Rightarrow> string list content_section" where
  "resolve_section html_rel_dir valid_images sec =
     sec\<lparr>sec_images := resolve_and_validate_images (sec_images sec) html_rel_dir valid_images,
         sec_content := map (resolve_block html_rel_dir valid_images) (sec_content sec)\<rparr>"

section \<open>Notions used to state the properties\<close>

text \<open>The loop of the wrapper resolver with a bound on its iterations: \<open>None\<close> when the
  bound is used up before the loop has left.\<close>

fun descend_fuel :: "nat \<Rightarrow> node \<Rightarrow> node option" where
  "descend_fuel 0 current_container = None"
| "descend_fuel (Suc fuel) current_container =
     (case tag_children current_container of
        [only_child] \<Rightarrow> descend_fuel fuel only_child
      | _ \<Rightarrow> Some current_container)"

text \<open>The number of tag levels of a tree.\<close>

fun depth :: "node \<Rightarrow> nat" where
  "depth (Tag nm ats cs) = Suc (fold max (map depth cs) 0)"
| "depth (NavigableString s) = 0"

text \<open>
  A chain of wrappers: every element but the last has the next one as its only tag-child,
  and the last has no tag-child or at least two.
\<close>

fun wrapper_chain :: "node list \<Rightarrow> bool" where
  "wrapper_chain [] = False"
| "wrapper_chain [final] = (length (tag_children final) \<noteq> 1)"
| "wrapper_chain (el # inner # rest) =
     (tag_children el = [inner] \<and> wrapper_chain (inner # rest))"

text \<open>A list without its repetitions, each value at the place of its first occurrence.\<close>

fun first_occurrences :: "'a list \<Rightarrow> 'a list" where
  "first_occurrences [] = []"
| "first_occurrences (x # xs) = x # first_occurrences (filter (\<lambda>y. y \<noteq> x) xs)"

text \<open>
  The references of a list that the resolver accepts, resolved, one entry per accepted
  reference of the input and in the input's order.
\<close>

definition kept_references :: "string \<Rightarrow> string set \<Rightarrow> string list \<Rightarrow> string list" where
  "kept_references html_rel_dir valid_images raw_images =
     filter (\<lambda>r. r \<noteq> [] \<and> (is_external_url r \<or> r \<in> valid_images))
       (List.map_filter (\<lambda>src. resolve_image_path src html_rel_dir) raw_images)"

text \<open>The two boilerplate tests that the segmenter applies to an element that is no header.\<close>

definition link_heavy :: "node \<Rightarrow> bool" where
  "link_heavy child =
     (40 < length (get_text_strip child)
      \<and> 7 * length (get_text_strip child) < 10 * length (links_text child))"

definition empty_block :: "node \<Rightarrow> bool" where
  "empty_block child = (get_text_strip child = [] \<and> child_images child = [])"

definition survives :: "node \<Rightarrow> bool" where
  "survives child = (\<not> link_heavy child \<and> \<not> empty_block child)"

text \<open>The block the segmenter records for an element that is no header.\<close>

definition plain_block :: "node \<Rightarrow> string list block" where
  "plain_block child =
     \<lparr>blk_tag = tag_name child, blk_text = strip (get_text child), blk_html = child,
      blk_images = child_images child, blk_is_header = False\<rparr>"

definition all_blocks :: "'i content_section list \<Rightarrow> 'i block list" where
  "all_blocks secs = concat (map sec_content secs)"

subsection \<open>The grouping loop on values\<close>

text \<open>
  The state of the loop as the caller would read it at that moment, and one iteration on
  it. A header block shares its list with the open section, so extending the section's list
  extends the header block's list as well.
\<close>

record val_state =
  v_sections :: "string list content_section list"
  v_header :: "string option"
  v_content :: "string list block list"
  v_images :: "string list"

definition read_state :: "seg_state \<Rightarrow> val_state" where
  "read_state st =
     \<lparr>v_sections = map (read_section (store st)) (sections st),
      v_header = current_header st,
      v_content = map (read_block (store st)) (current_content st),
      v_images = store st (current_images st)\<rparr>"

definition v_emit :: "val_state \<Rightarrow> string list content_section list" where
  "v_emit vs =
     (if (case v_header vs of None \<Rightarrow> False | Some h \<Rightarrow> h \<noteq> []) \<or> v_content vs \<noteq> []
      then v_sections vs @
             [\<lparr>sec_header = header_or_intro (v_header vs),
               sec_content = v_content vs,
               sec_images = v_images vs\<rparr>]
      else v_sections vs)"

definition v_step :: "node \<Rightarrow> val_state \<Rightarrow> val_state" where
  "v_step child vs =
     (if is_generic_header (Some child) then
        \<lparr>v_sections = v_emit vs,
         v_header = Some (strip (get_text child)),
         v_content = [\<lparr>blk_tag = tag_name child, blk_text = strip (get_text child),
                       blk_html = child, blk_images = child_images child,
                       blk_is_header = True\<rparr>],
         v_images = child_images child\<rparr>
      else if link_heavy child \<or> empty_block child then vs
      else
        vs\<lparr>v_content :=
              map (\<lambda>b. if blk_is_header b
                        then b\<lparr>blk_images := v_images vs @ child_images child\<rparr> else b)
                (v_content vs) @ [plain_block child],
           v_images := v_images vs @ child_images child\<rparr>)"

definition v_initial :: val_state where
  "v_initial = \<lparr>v_sections = [], v_header = None, v_content = [], v_images = []\<rparr>"

text \<open>The addresses in use lie below \<open>next_addr\<close>; the list of the open section is shared
  by the header blocks of the open section and by nothing else.\<close>

definition state_ok :: "seg_state \<Rightarrow> bool" where
  "state_ok st =
     (current_images st < next_addr st
      \<and> (\<forall>b \<in> set (current_content st).
            blk_images b < next_addr st
            \<and> (blk_is_header b \<longleftrightarrow> blk_images b = current_images st))
      \<and> (\<forall>sec \<in> set (sections st).
            sec_images sec < next_addr st \<and> sec_images sec \<noteq> current_images st
            \<and> (\<forall>b \<in> set (sec_content sec).
                  blk_images b < next_addr st \<and> blk_images b \<noteq> current_images st)))"

text \<open>
  How the blocks of a section and the section's list hang together: either no block is a
  header and the list is the blocks' lists one after the other, or the first block is the
  only header, holds the section's list itself, and that list ends with the lists of the
  other blocks.
\<close>

definition content_shape :: "string list block list \<Rightarrow> string list \<Rightarrow> bool" where
  "content_shape cnt imgs =
     (((\<forall>b \<in> set cnt. \<not> blk_is_header b) \<and> concat (map blk_images cnt) = imgs)
      \<or> (\<exists>hb rest own.
            cnt = hb # rest \<and> blk_is_header hb \<and> blk_images hb = imgs
            \<and> (\<forall>b \<in> set rest. \<not> blk_is_header b)
            \<and> imgs = own @ concat (map blk_images rest)))"

text \<open>The state of the loop on values in which the open section and every finished section
  have that form.\<close>

definition sections_shaped :: "val_state \<Rightarrow> bool" where
  "sections_shaped vs =
     (content_shape (v_content vs) (v_images vs)
      \<and> (\<forall>sec \<in> set (v_sections vs). content_shape (sec_content sec) (sec_images sec)))"

section \<open>The loop on the store and the loop on values\<close>

lemma read_block_cong:
  "h (blk_images b) = h' (blk_images b) \<Longrightarrow> read_block h b = read_block h' b"
  by (simp add: read_block_def)

lemma read_section_cong:
  "h (sec_images s) = h' (sec_images s) \<Longrightarrow>
   (\<And>b. b \<in> set (sec_content s) \<Longrightarrow> h (blk_images b) = h' (blk_images b)) \<Longrightarrow>
   read_section h s = read_section h' s"
proof -
  assume h: "h (sec_images s) = h' (sec_images s)"
    and b: "\<And>b. b \<in> set (sec_content s) \<Longrightarrow> h (blk_images b) = h' (blk_images b)"
  have "map (read_block h) (sec_content s) = map (read_block h') (sec_content s)"
    by (intro map_cong refl read_block_cong b)
  with h show ?thesis by (simp add: read_section_def)
qed

lemma segment_step_cases:
  "segment_step child st =
     (let a = next_addr st;
          st1 = st\<lparr>store := (store st)(a := child_images child), next_addr := Suc a\<rparr>
      in if is_generic_header (Some child) then
               Inr (st1\<lparr>sections := emit_section st1,
                        current_header := Some (strip (get_text child)),
                        current_content :=
                          [\<lparr>blk_tag = tag_name child, blk_text = strip (get_text child),
                            blk_html = child, blk_images = a, blk_is_header = True\<rparr>],
                        current_images := a\<rparr>)
         else if link_heavy child \<or> empty_block child then Inr st1
         else Inr (st1\<lparr>store := (store st1)
                                  (current_images st1 :=
                                     store st1 (current_images st1) @ store st1 a),
                        current_content := current_content st1 @
                          [\<lparr>blk_tag = tag_name child, blk_text = strip (get_text child),
                            blk_html = child, blk_images = a, blk_is_header = False\<rparr>]\<rparr>))"
  by (simp add: segment_step_def Let_def link_ratio_exceeds_def link_heavy_def empty_block_def)

lemma segment_step_refines:
  assumes ok: "state_ok st"
  shows "\<exists>st'. segment_step child st = Inr st' \<and> state_ok st' \<and> read_state st' = v_step child (read_state st)"
proof -
  let ?a = "next_addr st"
  let ?imgs = "child_images child"
  let ?h1 = "(store st)(?a := ?imgs)"
  let ?st1 = "st\<lparr>store := ?h1, next_addr := Suc ?a\<rparr>"
  let ?ci = "current_images st"
  have ci: "?ci < ?a" using ok by (simp add: state_ok_def)
  have cc: "blk_images b < ?a" "blk_is_header b \<longleftrightarrow> blk_images b = ?ci"
    if "b \<in> set (current_content st)" for b
    using ok that by (simp_all add: state_ok_def)
  have ss: "sec_images s < ?a" "sec_images s \<noteq> ?ci"
    if "s \<in> set (sections st)" for s
    using ok that by (simp_all add: state_ok_def)
  have sb: "blk_images b < ?a" "blk_images b \<noteq> ?ci"
    if "s \<in> set (sections st)" "b \<in> set (sec_content s)" for s b
    using ok that by (simp_all add: state_ok_def)
  have ci_ne: "?ci \<noteq> ?a" "?a \<noteq> ?ci" using ci by simp_all
  have cc_ne: "blk_images b \<noteq> ?a" if "b \<in> set (current_content st)" for b
    using cc(1)[OF that] by simp
  have ss_ne: "sec_images s \<noteq> ?a" if "s \<in> set (sections st)" for s
    using ss(1)[OF that] by simp
  have sb_ne: "blk_images b \<noteq> ?a" if "s \<in> set (sections st)" "b \<in> set (sec_content s)" for s b
    using sb(1)[OF that] by simp
  have ok1: "state_ok ?st1"
    unfolding state_ok_def
    by (simp add: ci cc ss sb less_Suc_eq)
  have rb1: "read_block ?h1 b = read_block (store st) b" if "b \<in> set (current_content st)" for b
    using cc(1)[OF that] by (intro read_block_cong) simp
  have rsec1: "read_section ?h1 s = read_section (store st) s" if "s \<in> set (sections st)" for s
  proof (rule read_section_cong)
    show "?h1 (sec_images s) = store st (sec_images s)" using ss(1)[OF that] by simp
    show "?h1 (blk_images b) = store st (blk_images b)" if "b \<in> set (sec_content s)" for b
      using sb(1)[OF \<open>s \<in> set (sections st)\<close> that] by simp
  qed
  have mb1: "map (read_block ?h1) (current_content st) = map (read_block (store st)) (current_content st)"
    by (intro map_cong refl rb1)
  have msec1: "map (read_section ?h1) (sections st) = map (read_section (store st)) (sections st)"
    by (intro map_cong refl rsec1)
  have rs1: "read_state ?st1 = read_state st"
    using ci by (simp add: read_state_def mb1 msec1)
  show ?thesis
  proof (cases "is_generic_header (Some child)")
    case True
    let ?hb = "\<lparr>blk_tag = tag_name child, blk_text = strip (get_text child),
                            blk_html = child, blk_images = ?a, blk_is_header = True\<rparr>"
    let ?st2 = "?st1\<lparr>sections := emit_section ?st1,
                        current_header := Some (strip (get_text child)),
                        current_content := [?hb],
                        current_images := ?a\<rparr>"
    have step: "segment_step child st = Inr ?st2"
      using True by (simp add: segment_step_cases Let_def)
    have emit: "map (read_section ?h1) (emit_section ?st1) = v_emit (read_state st)"
      using ci
      by (simp add: emit_section_def v_emit_def section_open_def read_state_def
          read_section_def mb1 msec1)
    have "read_state ?st2 = v_step child (read_state st)"
      using True emit by (simp add: v_step_def read_state_def read_block_def)
    moreover have "state_ok ?st2"
      unfolding state_ok_def
      by (auto simp: emit_section_def ci cc ss sb cc_ne ss_ne sb_ne ci_ne less_Suc_eq)
    ultimately show ?thesis using step by blast
  next
    case False
    show ?thesis
    proof (cases "link_heavy child \<or> empty_block child")
      case True
      with False ok1 rs1 show ?thesis
        by (simp add: segment_step_cases v_step_def Let_def)
    next
      case kept: False
      let ?h2 = "(store st)(?a := ?imgs, ?ci := store st ?ci @ ?imgs)"
      let ?nb = "\<lparr>blk_tag = tag_name child, blk_text = strip (get_text child),
                            blk_html = child, blk_images = ?a, blk_is_header = False\<rparr>"
      let ?st2 = "?st1\<lparr>store := ?h2, current_content := current_content st @ [?nb]\<rparr>"
      have step: "segment_step child st = Inr ?st2"
        using False kept ci_ne by (simp add: segment_step_cases Let_def)
      have rsec2: "read_section ?h2 s = read_section (store st) s" if "s \<in> set (sections st)" for s
      proof (rule read_section_cong)
        show "?h2 (sec_images s) = store st (sec_images s)" using ss[OF that] by simp
        show "?h2 (blk_images b) = store st (blk_images b)" if "b \<in> set (sec_content s)" for b
          using sb[OF \<open>s \<in> set (sections st)\<close> that] by simp
      qed
      have rb2: "read_block ?h2 b =
            (if blk_is_header (read_block (store st) b)
             then (read_block (store st) b)\<lparr>blk_images := store st ?ci @ ?imgs\<rparr>
             else read_block (store st) b)" if "b \<in> set (current_content st)" for b
        using cc[OF that] cc_ne[OF that] ci_ne by (simp add: read_block_def)
      have msec2: "map (read_section ?h2) (sections st) = map (read_section (store st)) (sections st)"
        by (intro map_cong refl rsec2)
      have mb2: "map (read_block ?h2) (current_content st) =
           map (\<lambda>b. if blk_is_header b then b\<lparr>blk_images := store st ?ci @ ?imgs\<rparr> else b)
             (map (read_block (store st)) (current_content st))"
        unfolding map_map o_def by (intro map_cong refl rb2)
      have "read_state ?st2 = v_step child (read_state st)"
        using False kept ci_ne
        by (simp add: v_step_def read_state_def msec2 mb2 plain_block_def read_block_def)
      moreover have "state_ok ?st2"
        unfolding state_ok_def
        by (auto simp: ci cc ss sb cc_ne ss_ne sb_ne ci_ne less_Suc_eq)
      ultimately show ?thesis using step by blast
    qed
  qed
qed


lemma segment_loop_refines:
  assumes "state_ok st"
  shows "\<exists>st'. segment_loop elems st = Inr st' \<and> state_ok st'
           \<and> read_state st' = fold v_step elems (read_state st)"
  using assms
proof (induction elems arbitrary: st)
  case Nil
  then show ?case by simp
next
  case (Cons child rest)
  from segment_step_refines [OF Cons.prems, of child]
  obtain st1 where s1: "segment_step child st = Inr st1" "state_ok st1"
    "read_state st1 = v_step child (read_state st)" by blast
  from Cons.IH [OF s1(2)] s1(1,3) show ?case by simp
qed

lemma read_emit_section:
  "map (read_section (store st)) (emit_section st) = v_emit (read_state st)"
  by (simp add: emit_section_def v_emit_def section_open_def read_state_def read_section_def)

lemma state_ok_initial: "state_ok initial_state"
  by (simp add: state_ok_def initial_state_def)

lemma read_initial: "read_state initial_state = v_initial"
  by (simp add: read_state_def initial_state_def v_initial_def)

lemma segment_eq: "segment elems = Inr (v_emit (fold v_step elems v_initial))"
proof -
  from segment_loop_refines [OF state_ok_initial, of elems]
  obtain st' where "segment_loop elems initial_state = Inr st'"
    "read_state st' = fold v_step elems (read_state initial_state)" by blast
  then show ?thesis
    by (simp add: segment_def read_emit_section read_initial)
qed


section \<open>Failure handling of the extraction\<close>

text \<open>
  C8. Extraction from a file always returns a list of sections and never an error. When
  the path does not exist, when the file cannot be opened, when both parsers fail, or when
  the parsed tree has no \<^verbatim>\<open>body\<close> element, the list is empty.
\<close>

theorem extraction_never_raises:
  "(\<exists>secs. extract_content_sections f = Inr secs)
   \<and> (\<not> path_exists f
        \<or> \<not> open_succeeds f
        \<or> (parse_lxml_xml f = None \<and> parse_html_parser f = None)
        \<or> (\<exists>soup. load_soup f = Some soup \<and> find_first ''body'' soup = None)
      \<longrightarrow> extract_content_sections f = Inr [])"
proof
  show "\<exists>secs. extract_content_sections f = Inr secs"
    by (simp add: extract_content_sections_def sections_of_body_def segment_eq
        split: option.split)
  show "\<not> path_exists f \<or> \<not> open_succeeds f
        \<or> (parse_lxml_xml f = None \<and> parse_html_parser f = None)
        \<or> (\<exists>soup. load_soup f = Some soup \<and> find_first ''body'' soup = None)
      \<longrightarrow> extract_content_sections f = Inr []"
    by (auto simp: extract_content_sections_def load_soup_def split: option.split)
qed

theorem extraction_never_raises_witness:
  "extract_content_sections
     \<lparr>path_exists = True, open_succeeds = True,
      parse_lxml_xml = Some (Tag ''[document]'' [] [Tag ''html'' [] [NavigableString ''x'']]),
      parse_html_parser = None\<rparr> = Inr []"
proof -
  let ?f = "\<lparr>path_exists = True, open_succeeds = True,
      parse_lxml_xml = Some (Tag ''[document]'' [] [Tag ''html'' [] [NavigableString ''x'']]),
      parse_html_parser = None\<rparr>"
  have "\<exists>soup. load_soup ?f = Some soup \<and> find_first ''body'' soup = None"
    by (simp add: load_soup_def find_first_def find_all_def)
  with extraction_never_raises [of ?f] show ?thesis by blast
qed

section \<open>The image reference resolver\<close>

lemma first_occurrences_filter:
  "first_occurrences (filter P xs) = filter P (first_occurrences xs)"
proof (induction xs rule: first_occurrences.induct)
  case 1
  then show ?case by simp
next
  case (2 x xs)
  have comm: "filter (\<lambda>y. y \<noteq> x) (filter P xs) = filter P (filter (\<lambda>y. y \<noteq> x) xs)"
    by (induction xs) auto
  show ?case
  proof (cases "P x")
    case True
    have "first_occurrences (filter P (x # xs))
          = x # first_occurrences (filter (\<lambda>y. y \<noteq> x) (filter P xs))"
      using True by simp
    also have "\<dots> = x # filter P (first_occurrences (filter (\<lambda>y. y \<noteq> x) xs))"
      by (simp only: comm 2)
    finally show ?thesis using True by simp
  next
    case False
    have "filter P xs = filter P (filter (\<lambda>y. y \<noteq> x) xs)"
      using False by (induction xs) auto
    then have "first_occurrences (filter P (x # xs))
          = first_occurrences (filter P (filter (\<lambda>y. y \<noteq> x) xs))"
      using False by simp
    also have "\<dots> = filter P (first_occurrences (filter (\<lambda>y. y \<noteq> x) xs))"
      by (rule 2)
    finally show ?thesis using False by simp
  qed
qed

lemma set_first_occurrences [simp]: "set (first_occurrences xs) = set xs"
  by (induction xs rule: first_occurrences.induct) auto

lemma distinct_first_occurrences [simp]: "distinct (first_occurrences xs)"
  by (induction xs rule: first_occurrences.induct) auto

lemma first_occurrences_distinct: "distinct xs \<Longrightarrow> first_occurrences xs = xs"
proof (induction xs)
  case Nil
  then show ?case by simp
next
  case (Cons a xs)
  then have "filter (\<lambda>y. y \<noteq> a) xs = xs" by (auto simp: filter_id_conv)
  with Cons show ?case by simp
qed

lemma first_occurrences_append:
  "first_occurrences (xs @ ys) =
     first_occurrences xs @ first_occurrences (filter (\<lambda>y. y \<notin> set xs) ys)"
proof (induction xs arbitrary: ys rule: first_occurrences.induct)
  case 1
  then show ?case by simp
next
  case (2 x xs)
  have eq: "filter (\<lambda>y. y \<notin> set (filter (\<lambda>y. y \<noteq> x) xs)) (filter (\<lambda>y. y \<noteq> x) ys)
        = filter (\<lambda>y. y \<notin> set (x # xs)) ys"
    by (induction ys) auto
  have "first_occurrences ((x # xs) @ ys)
        = x # first_occurrences (filter (\<lambda>y. y \<noteq> x) xs @ filter (\<lambda>y. y \<noteq> x) ys)"
    by simp
  also have "\<dots> = x # first_occurrences (filter (\<lambda>y. y \<noteq> x) xs)
        @ first_occurrences (filter (\<lambda>y. y \<notin> set (x # xs)) ys)"
    by (simp only: 2 eq append_Cons)
  finally show ?case by simp
qed

lemma resolve_loop_eq:
  "resolve_loop d v (set res) res raw =
     res @ first_occurrences (filter (\<lambda>r. r \<notin> set res) (kept_references d v raw))"
proof (induction raw arbitrary: res)
  case Nil
  then show ?case by (simp add: kept_references_def List.map_filter_simps)
next
  case (Cons src raw)
  show ?case
  proof (cases "resolve_image_path src d")
    case None
    then show ?thesis using Cons [of res]
      by (simp add: kept_references_def List.map_filter_simps)
  next
    case (Some r)
    have kr: "kept_references d v (src # raw) =
        (if r \<noteq> [] \<and> (is_external_url r \<or> r \<in> v) then [r] else []) @ kept_references d v raw"
      using Some by (simp add: kept_references_def List.map_filter_simps)
    show ?thesis
    proof (cases "r \<noteq> [] \<and> r \<notin> set res \<and> (is_external_url r \<or> r \<in> v)")
      case True
      have "resolve_loop d v (set res) res (src # raw) =
            resolve_loop d v (set (res @ [r])) (res @ [r]) raw"
        using Some True by simp
      also have "\<dots> = (res @ [r]) @ first_occurrences
            (filter (\<lambda>x. x \<notin> set (res @ [r])) (kept_references d v raw))"
        by (rule Cons)
      also have "filter (\<lambda>x. x \<notin> set (res @ [r])) (kept_references d v raw)
           = filter (\<lambda>y. y \<noteq> r) (filter (\<lambda>x. x \<notin> set res) (kept_references d v raw))"
        by (auto intro: filter_cong)
      finally show ?thesis using True by (simp add: kr)
    next
      case False
      then have "resolve_loop d v (set res) res (src # raw) = resolve_loop d v (set res) res raw"
        using Some by auto
      then show ?thesis using False Cons [of res] by (auto simp: kr)
    qed
  qed
qed

text \<open>
  C7. For every list of raw references, the output of the image reference resolver has no
  value twice, and it is the list of the accepted references, resolved, in the order of the
  input, with every value kept at its first occurrence only.
\<close>

theorem resolved_images_deduplicated:
  "distinct (resolve_and_validate_images raw_images html_rel_dir valid_images)
   \<and> resolve_and_validate_images raw_images html_rel_dir valid_images
       = first_occurrences (kept_references html_rel_dir valid_images raw_images)"
proof -
  have "resolve_and_validate_images raw_images html_rel_dir valid_images
       = first_occurrences (kept_references html_rel_dir valid_images raw_images)"
    using resolve_loop_eq [of html_rel_dir valid_images "[]" raw_images]
    by (simp add: resolve_and_validate_images_def)
  then show ?thesis by simp
qed


text \<open>
  C3. A reference that begins with an external prefix is kept as it is and is not looked
  up in the set of known images; any other reference loses its fragment and query, is
  dropped when nothing remains, is resolved against the directory and is kept exactly when
  the resolved path is a known image. The last part fails for a reference that does not
  begin with an external prefix but whose resolved path does: \<^verbatim>\<open>../../data:x\<close> from
  \<^verbatim>\<open>OEBPS/Text\<close> resolves to \<^verbatim>\<open>data:x\<close> and is kept although no image is known.
\<close>

theorem lookalike_reference_kept_unvalidated:
  "\<not> is_external_url ''../../data:x''
   \<and> resolve_image_path ''../../data:x'' ''OEBPS/Text'' = Some ''data:x''
   \<and> resolve_and_validate_images [''../../data:x''] ''OEBPS/Text'' {} = [''data:x'']"
  by (simp add: resolve_and_validate_images_def resolve_image_path_def is_external_url_def
      EXTERNAL_PREFIXES_def startswith_def split_first_def path_join_def normpath_def
      normalize_path_def)

lemma external_not_empty: "is_external_url s \<Longrightarrow> s \<noteq> []"
  by (auto simp: is_external_url_def EXTERNAL_PREFIXES_def startswith_def)

lemma resolve_single_external:
  "is_external_url src \<Longrightarrow> resolve_and_validate_images [src] d v = [src]"
  by (simp add: resolve_and_validate_images_def resolve_image_path_def external_not_empty)

lemma resolve_single_internal:
  assumes "\<not> is_external_url src"
  shows "resolve_and_validate_images [src] d v =
     (let base_src = split_first CHR ''?'' (split_first CHR ''#'' src);
          r = normalize_path (normpath (path_join d base_src))
      in if base_src = [] \<or> r = [] then []
         else if is_external_url r \<or> r \<in> v then [r] else [])"
  using assms
  by (simp add: resolve_and_validate_images_def resolve_image_path_def Let_def)

lemma cover_example:
  "resolve_and_validate_images [''../images/cover.jpg''] ''OEBPS/Text'' v =
     (if ''OEBPS/images/cover.jpg'' \<in> v then [''OEBPS/images/cover.jpg''] else [])"
  by (simp add: resolve_and_validate_images_def resolve_image_path_def is_external_url_def
      EXTERNAL_PREFIXES_def startswith_def split_first_def path_join_def normpath_def
      normalize_path_def)

lemma external_example:
  "resolve_and_validate_images [''https://example.com/x.png''] d v = [''https://example.com/x.png'']"
  by (rule resolve_single_external)
     (simp add: is_external_url_def EXTERNAL_PREFIXES_def startswith_def)

section \<open>The header detector\<close>

lemma str_contains_sublist: "str_contains kw s \<longleftrightarrow> sublist kw s"
  by (induction s) (auto simp: sublist_Cons_right)

text \<open>
  C4. The header detector answers false when there is no element. For an element it answers
  true when the tag name is one of \<^verbatim>\<open>h1\<close> to \<^verbatim>\<open>h6\<close>, or the role is \<^verbatim>\<open>heading\<close>, or the
  lower-cased string made of the class list and the id contains one of the eleven keywords
  and the stripped text has more than 0 and fewer than 200 characters; otherwise it answers
  false.
\<close>

theorem header_detector_characterisation:
  "is_generic_header None = False
   \<and> (nm \<noteq> [] \<longrightarrow>
        is_generic_header (Some (Tag nm ats cs)) =
          (nm \<in> {''h1'', ''h2'', ''h3'', ''h4'', ''h5'', ''h6''}
           \<or> map_of ats ''role'' = Some (AttrStr ''heading'')
           \<or> ((\<exists>kw \<in> {''title'', ''heading'', ''chapter-head'', ''ch-title'', ''section-title'',
                         ''chapter-label'', ''ch-label'', ''title-prefix'', ''chapter-number'',
                         ''label'', ''title-text''}.
                   sublist kw (combined_class_id (Tag nm ats cs)))
               \<and> 0 < length (get_text_strip (Tag nm ats cs))
               \<and> length (get_text_strip (Tag nm ats cs)) < 200)))"
proof (intro conjI impI)
  show "is_generic_header None = False" by simp
next
  assume named: "nm \<noteq> []"
  let ?el = "Tag nm ats cs"
  have tags: "nm \<in> set HEADING_TAGS \<longleftrightarrow> nm \<in> {''h1'', ''h2'', ''h3'', ''h4'', ''h5'', ''h6''}"
    by (simp add: HEADING_TAGS_def)
  have kws: "list_ex (\<lambda>kw. str_contains kw (combined_class_id ?el)) header_keywords
      \<longleftrightarrow> (\<exists>kw \<in> {''title'', ''heading'', ''chapter-head'', ''ch-title'', ''section-title'',
                         ''chapter-label'', ''ch-label'', ''title-prefix'', ''chapter-number'',
                         ''label'', ''title-text''}. sublist kw (combined_class_id ?el))"
    by (simp add: header_keywords_def str_contains_sublist)
  show "is_generic_header (Some ?el) =
          (nm \<in> {''h1'', ''h2'', ''h3'', ''h4'', ''h5'', ''h6''}
           \<or> map_of ats ''role'' = Some (AttrStr ''heading'')
           \<or> ((\<exists>kw \<in> {''title'', ''heading'', ''chapter-head'', ''ch-title'', ''section-title'',
                         ''chapter-label'', ''ch-label'', ''title-prefix'', ''chapter-number'',
                         ''label'', ''title-text''}.
                   sublist kw (combined_class_id ?el))
               \<and> 0 < length (get_text_strip ?el)
               \<and> length (get_text_strip ?el) < 200))"
    unfolding tags [symmetric] kws [symmetric]
    using named by (simp add: Let_def)
qed

theorem header_detector_characterisation_witness:
  "is_generic_header
     (Some (Tag ''div'' [(''class'', AttrList [''Chapter'', ''TITLE''])] [NavigableString '' Hi '']))"
proof -
  let ?e = "Tag ''div'' [(''class'', AttrList [''Chapter'', ''TITLE''])] [NavigableString '' Hi '']"
  have c: "combined_class_id ?e = ''chapter title ''" by code_simp
  have t: "get_text_strip ?e = ''Hi''" by code_simp
  have "sublist ''title'' (''chapter '' @ ''title'' @ '' '')" by (rule sublist_appendI)
  then have s: "sublist ''title'' (combined_class_id ?e)" by (simp add: c)
  have ne: "''div'' \<noteq> []" by simp
  from header_detector_characterisation
      [of "''div''" "[(''class'', AttrList [''Chapter'', ''TITLE''])]" "[NavigableString '' Hi '']"]
    ne s t
  show ?thesis by simp
qed

section \<open>The wrapper resolver\<close>

lemma find_content_container_step:
  "tag_children e = [c] \<Longrightarrow> find_content_container e = find_content_container c"
  by (subst find_content_container.simps) simp

lemma find_content_container_stop:
  "length (tag_children e) \<noteq> 1 \<Longrightarrow> find_content_container e = e"
  by (subst find_content_container.simps) (auto split: list.split)

lemma content_children_plain:
  assumes "\<forall>c \<in> set (tag_children e). tag_name c \<notin> set CONTAINER_TAGS"
  shows "content_children e = tag_children e"
proof -
  have "concat (map unwrap_child xs) = xs" if "\<forall>c \<in> set xs. tag_name c \<notin> set CONTAINER_TAGS" for xs
    using that by (induction xs) (simp_all add: unwrap_child_def)
  with assms show ?thesis by (simp add: content_children_def Let_def)
qed

text \<open>Every element heads such a chain.\<close>

lemma wrapper_chain_exists: "\<exists>inner. wrapper_chain (body # inner)"
proof (induction body rule: find_content_container.induct)
  case (1 el)
  show ?case
  proof (cases "tag_children el")
    case Nil
    then have "wrapper_chain [el]" by simp
    then show ?thesis by blast
  next
    case (Cons c rest)
    show ?thesis
    proof (cases rest)
      case Nil
      from 1 [OF Cons Nil] obtain inner where "wrapper_chain (c # inner)" by blast
      with Cons Nil have "wrapper_chain (el # c # inner)" by simp
      then show ?thesis by blast
    next
      case (Cons c2 rest2)
      with \<open>tag_children el = c # rest\<close> have "wrapper_chain [el]" by simp
      then show ?thesis by blast
    qed
  qed
qed

text \<open>
  C1. When the body heads a chain of elements in which each has the next as its only
  tag-child and the last has no tag-child or at least two, the wrapper resolver stops at the
  last element of the chain. When no tag-child of that element is a \<^verbatim>\<open>div\<close>, \<^verbatim>\<open>section\<close>
  or \<^verbatim>\<open>article\<close> (five \<^verbatim>\<open>p\<close> elements, say), the content-level elements are exactly
  those tag-children.
\<close>

theorem wrapper_descent:
  assumes "wrapper_chain (body # inner)"
  shows "find_content_container body = last (body # inner)
         \<and> length (tag_children (find_content_container body)) \<noteq> 1
         \<and> ((\<forall>c \<in> set (tag_children (last (body # inner))). tag_name c \<notin> set CONTAINER_TAGS)
              \<longrightarrow> content_children (find_content_container body)
                    = tag_children (last (body # inner)))"
proof -
  have fc: "find_content_container body = last (body # inner)"
    using assms
  proof (induction inner arbitrary: body)
    case Nil
    then show ?case by (simp add: find_content_container_stop)
  next
    case (Cons el rest)
    then have "tag_children body = [el]" and "wrapper_chain (el # rest)" by simp_all
    with Cons.IH [of el] show ?case by (simp add: find_content_container_step)
  qed
  have stop: "length (tag_children (last (body # inner))) \<noteq> 1"
    using assms
  proof (induction inner arbitrary: body)
    case Nil
    then show ?case by simp
  next
    case (Cons el rest)
    then have "wrapper_chain (el # rest)" by simp
    with Cons.IH [of el] show ?case by simp
  qed
  show ?thesis
    unfolding fc using stop content_children_plain by blast
qed

theorem wrapper_descent_witness:
  "content_children
     (find_content_container
        (Tag ''body'' []
           [NavigableString '' '',
            Tag ''div'' [(''class'', AttrList [''outer''])]
              [Tag ''div'' []
                 [Tag ''div'' []
                    [Tag ''p'' [] [NavigableString ''one''],
                     Tag ''p'' [] [NavigableString ''two''],
                     Tag ''p'' [] [NavigableString ''three''],
                     Tag ''p'' [] [NavigableString ''four''],
                     Tag ''p'' [] [NavigableString ''five'']]]]]))
   = [Tag ''p'' [] [NavigableString ''one''],
      Tag ''p'' [] [NavigableString ''two''],
      Tag ''p'' [] [NavigableString ''three''],
      Tag ''p'' [] [NavigableString ''four''],
      Tag ''p'' [] [NavigableString ''five'']]"
proof -
  let ?ps = "[Tag ''p'' [] [NavigableString ''one''],
      Tag ''p'' [] [NavigableString ''two''],
      Tag ''p'' [] [NavigableString ''three''],
      Tag ''p'' [] [NavigableString ''four''],
      Tag ''p'' [] [NavigableString ''five'']]"
  let ?d3 = "Tag ''div'' [] ?ps"
  let ?d2 = "Tag ''div'' [] [?d3]"
  let ?d1 = "Tag ''div'' [(''class'', AttrList [''outer''])] [?d2]"
  let ?body = "Tag ''body'' [] [NavigableString '' '', ?d1]"
  have chain: "wrapper_chain (?body # [?d1, ?d2, ?d3])"
    by (simp add: tag_children_def)
  have plain: "\<forall>c \<in> set (tag_children (last (?body # [?d1, ?d2, ?d3]))).
                 tag_name c \<notin> set CONTAINER_TAGS"
    by (simp add: tag_children_def CONTAINER_TAGS_def)
  have tc: "tag_children (last (?body # [?d1, ?d2, ?d3])) = ?ps"
    by (simp add: tag_children_def)
  from wrapper_descent [OF chain] plain
  have "content_children (find_content_container ?body)
        = tag_children (last (?body # [?d1, ?d2, ?d3]))" by blast
  also have "\<dots> = ?ps" by (rule tc)
  finally show ?thesis .
qed

lemma fold_max_ge: "(a::nat) \<le> fold max xs a"
proof (induction xs arbitrary: a)
  case Nil
  then show ?case by simp
next
  case (Cons x xs)
  have "a \<le> max x a" by simp
  also have "\<dots> \<le> fold max xs (max x a)" by (rule Cons)
  finally show ?case by simp
qed

lemma fold_max_member: "x \<in> set xs \<Longrightarrow> (x::nat) \<le> fold max xs a"
proof (induction xs arbitrary: a)
  case Nil
  then show ?case by simp
next
  case (Cons y ys)
  show ?case
  proof (cases "x = y")
    case True
    have "x \<le> max y a" using True by simp
    also have "\<dots> \<le> fold max ys (max y a)" by (rule fold_max_ge)
    finally show ?thesis by simp
  next
    case False
    with Cons.prems have "x \<in> set ys" by simp
    from Cons.IH [OF this] show ?thesis by simp
  qed
qed

lemma depth_tag_child:
  assumes "c \<in> set (tag_children e)"
  shows "c \<in> set (children e) \<and> depth c < depth e"
proof -
  from assms have c: "c \<in> set (children e)" by (simp add: tag_children_def)
  then obtain nm ats cs where e: "e = Tag nm ats cs" by (cases e) auto
  with c have "depth c \<in> set (map depth cs)" by simp
  then have "depth c \<le> fold max (map depth cs) 0" by (rule fold_max_member)
  with c e show ?thesis by simp
qed

lemma depth_named_tag: "is_named_tag c \<Longrightarrow> 0 < depth c"
  by (cases c) simp_all

lemma descend_fuel_enough:
  "depth e \<le> k \<Longrightarrow> 0 < k \<Longrightarrow> descend_fuel k e = Some (find_content_container e)"
proof (induction k arbitrary: e)
  case 0
  then show ?case by simp
next
  case (Suc k)
  show ?case
  proof (cases "tag_children e")
    case Nil
    then show ?thesis by (simp add: find_content_container_stop)
  next
    case (Cons c rest)
    show ?thesis
    proof (cases rest)
      case Nil
      with Cons have one: "tag_children e = [c]" by simp
      then have "c \<in> set (tag_children e)" by simp
      from depth_tag_child [OF this] Suc.prems have dk: "depth c \<le> k" by simp
      from one have "c \<in> set (filter is_named_tag (children e))"
        by (simp add: tag_children_def)
      then have "is_named_tag c" by simp
      then have "0 < depth c" by (rule depth_named_tag)
      with dk have "0 < k" by simp
      from Suc.IH [OF dk this] one show ?thesis
        by (simp add: find_content_container_step)
    next
      case (Cons c2 rest2)
      with \<open>tag_children e = c # rest\<close> show ?thesis
        by (simp add: find_content_container_stop)
    qed
  qed
qed

text \<open>
  C10. The descent loop of the wrapper resolver leaves after at most as many iterations as
  the tree has tag levels, with the container the resolver returns; every tag-child it can
  move to is a child of the current element and has a smaller depth.
\<close>

theorem wrapper_descent_terminates:
  "descend_fuel (depth (Tag nm ats cs) + extra) (Tag nm ats cs)
     = Some (find_content_container (Tag nm ats cs))
   \<and> (\<forall>c \<in> set (tag_children (Tag nm ats cs)). c \<in> set cs \<and> depth c < depth (Tag nm ats cs))"
proof
  show "descend_fuel (depth (Tag nm ats cs) + extra) (Tag nm ats cs)
     = Some (find_content_container (Tag nm ats cs))"
    by (rule descend_fuel_enough) simp_all
  show "\<forall>c \<in> set (tag_children (Tag nm ats cs)). c \<in> set cs \<and> depth c < depth (Tag nm ats cs)"
    using depth_tag_child [of _ "Tag nm ats cs"] by auto
qed

theorem wrapper_descent_terminates_witness:
  "descend_fuel 3
     (Tag ''body'' [] [Tag ''div'' [] [Tag ''p'' [] [], Tag ''p'' [] []]])
     = Some (Tag ''div'' [] [Tag ''p'' [] [], Tag ''p'' [] []])
   \<and> depth (Tag ''div'' [] [Tag ''p'' [] [], Tag ''p'' [] []])
       < depth (Tag ''body'' [] [Tag ''div'' [] [Tag ''p'' [] [], Tag ''p'' [] []]])"
proof -
  let ?d = "Tag ''div'' [] [Tag ''p'' [] [], Tag ''p'' [] []]"
  let ?b = "Tag ''body'' [] [?d]"
  have d: "depth ?b + 0 = 3" by simp
  have m: "?d \<in> set (tag_children ?b)" by (simp add: tag_children_def)
  have f: "find_content_container ?b = ?d"
    by (simp add: find_content_container_step [of ?b ?d] find_content_container_stop tag_children_def)
  from wrapper_descent_terminates [of "''body''" "[]" "[?d]" 0] m
  have "descend_fuel (depth ?b + 0) ?b = Some (find_content_container ?b)"
    and "depth ?d < depth ?b" by blast+
  then show ?thesis unfolding d f by simp
qed

section \<open>The boilerplate filters\<close>

lemma v_step_skip:
  "\<not> is_generic_header (Some e) \<Longrightarrow> link_heavy e \<or> empty_block e \<Longrightarrow> v_step e vs = vs"
  by (simp add: v_step_def)



lemma v_step_keep:
  "\<not> is_generic_header (Some e) \<Longrightarrow> \<not> link_heavy e \<Longrightarrow> \<not> empty_block e \<Longrightarrow>
   v_step e vs =
     vs\<lparr>v_content :=
          map (\<lambda>b. if blk_is_header b
                    then b\<lparr>blk_images := v_images vs @ child_images e\<rparr> else b)
            (v_content vs) @ [plain_block e],
        v_images := v_images vs @ child_images e\<rparr>"
  by (simp add: v_step_def)

lemma plain_block_no_header [simp]: "\<not> blk_is_header (plain_block e)"
  by (simp add: plain_block_def)


lemma plain_blocks_of_update:
  "filter (\<lambda>b. \<not> blk_is_header b)
     (map (\<lambda>b. if blk_is_header b then b\<lparr>blk_images := new\<rparr> else b) cnt)
   = filter (\<lambda>b. \<not> blk_is_header b) cnt"
  by (induction cnt) auto

lemma plain_blocks_v_emit:
  "filter (\<lambda>b. \<not> blk_is_header b) (all_blocks (v_emit vs))
   = filter (\<lambda>b. \<not> blk_is_header b) (all_blocks (v_sections vs))
     @ filter (\<lambda>b. \<not> blk_is_header b) (v_content vs)"
  by (auto simp: v_emit_def all_blocks_def)

lemma plain_blocks_fold:
  "filter (\<lambda>b. \<not> blk_is_header b) (all_blocks (v_emit (fold v_step elems vs)))
   = filter (\<lambda>b. \<not> blk_is_header b) (all_blocks (v_emit vs))
     @ map plain_block (filter (\<lambda>c. \<not> is_generic_header (Some c) \<and> survives c) elems)"
proof (induction elems arbitrary: vs)
  case Nil
  then show ?case by simp
next
  case (Cons e elems)
  have step: "filter (\<lambda>b. \<not> blk_is_header b) (all_blocks (v_emit (v_step e vs)))
     = filter (\<lambda>b. \<not> blk_is_header b) (all_blocks (v_emit vs))
       @ map plain_block (filter (\<lambda>c. \<not> is_generic_header (Some c) \<and> survives c) [e])"
  proof (cases "is_generic_header (Some e)")
    case True
    then show ?thesis
      by (simp add: plain_blocks_v_emit [of "v_step e vs"])
         (simp add: v_step_def plain_blocks_v_emit)
  next
    case False
    show ?thesis
    proof (cases "survives e")
      case True
      then have k: "\<not> link_heavy e" "\<not> empty_block e" by (simp_all add: survives_def)
      show ?thesis
        using False True
        by (simp add: plain_blocks_v_emit v_step_keep [OF False k] plain_blocks_of_update)
    next
      case False
      then have "link_heavy e \<or> empty_block e" by (auto simp: survives_def)
      with \<open>\<not> is_generic_header (Some e)\<close> False show ?thesis
        by (simp add: v_step_skip)
    qed
  qed
  show ?case
    by (simp add: Cons.IH [of "v_step e vs"] step)
qed

lemma count_list_filter:
  "count_list (filter P xs) x = (if P x then count_list xs x else 0)"
  by (induction xs) auto

text \<open>
  C6. The images of an element are collected before the boilerplate tests, and the test
  for empty blocks needs both an empty text and an empty image list. So an element that is
  no header, has no visible text and has at least one image reference is kept: its block,
  with its images, is in the result, once more than in the result for the same list without
  the element.
\<close>

theorem image_only_element_kept:
  assumes "\<not> is_generic_header (Some e)"
    and "get_text_strip e = []"
    and "child_images e \<noteq> []"
  shows "\<exists>secs secs'.
           segment (before @ e # after) = Inr secs
           \<and> segment (before @ after) = Inr secs'
           \<and> blk_images (plain_block e) = child_images e
           \<and> plain_block e \<in> set (all_blocks secs)
           \<and> count_list (all_blocks secs) (plain_block e)
               = Suc (count_list (all_blocks secs') (plain_block e))"
proof -
  let ?P = "\<lambda>b :: string list block. \<not> blk_is_header b"
  let ?K = "\<lambda>c. \<not> is_generic_header (Some c) \<and> survives c"
  let ?secs = "v_emit (fold v_step (before @ e # after) v_initial)"
  let ?secs' = "v_emit (fold v_step (before @ after) v_initial)"
  have surv: "survives e"
    using assms(2,3) by (simp add: survives_def link_heavy_def empty_block_def)
  have p: "?P (plain_block e)" by (simp add: plain_block_def)
  have init: "filter ?P (all_blocks (v_emit v_initial)) = []"
    by (simp add: v_emit_def v_initial_def all_blocks_def)
  have a: "filter ?P (all_blocks ?secs)
        = map plain_block (filter ?K before) @ plain_block e # map plain_block (filter ?K after)"
  proof -
    have "filter ?P (all_blocks ?secs)
          = filter ?P (all_blocks (v_emit v_initial))
            @ map plain_block (filter ?K (before @ e # after))"
      by (rule plain_blocks_fold)
    then show ?thesis using init assms(1) surv by simp
  qed
  have b: "filter ?P (all_blocks ?secs')
        = map plain_block (filter ?K before) @ map plain_block (filter ?K after)"
  proof -
    have "filter ?P (all_blocks ?secs')
          = filter ?P (all_blocks (v_emit v_initial))
            @ map plain_block (filter ?K (before @ after))"
      by (rule plain_blocks_fold)
    then show ?thesis using init by simp
  qed
  have "count_list (all_blocks ?secs) (plain_block e)
        = count_list (filter ?P (all_blocks ?secs)) (plain_block e)"
    using p by (simp add: count_list_filter)
  also have "\<dots> = Suc (count_list (filter ?P (all_blocks ?secs')) (plain_block e))"
    unfolding a b by simp
  also have "count_list (filter ?P (all_blocks ?secs')) (plain_block e)
        = count_list (all_blocks ?secs') (plain_block e)"
    using p by (simp add: count_list_filter)
  finally have cnt: "count_list (all_blocks ?secs) (plain_block e)
        = Suc (count_list (all_blocks ?secs') (plain_block e))" .
  then have "count_list (all_blocks ?secs) (plain_block e) \<noteq> 0" by simp
  then have mem: "plain_block e \<in> set (all_blocks ?secs)"
    by (metis count_notin)
  have img: "blk_images (plain_block e) = child_images e" by (simp add: plain_block_def)
  from cnt mem img show ?thesis by (simp add: segment_eq)
qed

theorem image_only_element_kept_witness:
  "\<exists>secs. segment [Tag ''p'' [] [NavigableString '' '', Tag ''img'' [(''src'', AttrStr ''a.png'')] []]]
            = Inr secs
     \<and> plain_block (Tag ''p'' [] [NavigableString '' '', Tag ''img'' [(''src'', AttrStr ''a.png'')] []])
         \<in> set (all_blocks secs)"
proof -
  let ?e = "Tag ''p'' [] [NavigableString '' '', Tag ''img'' [(''src'', AttrStr ''a.png'')] []]"
  have h: "\<not> is_generic_header (Some ?e)" by code_simp
  have t: "get_text_strip ?e = []" by code_simp
  have i: "child_images ?e \<noteq> []" by code_simp
  from image_only_element_kept [OF h t i, of "[]" "[]"] show ?thesis by auto
qed

section \<open>Documents without headers\<close>

lemma fold_no_headers:
  assumes "\<forall>c \<in> set elems. \<not> is_generic_header (Some c)"
    and "\<forall>b \<in> set (v_content vs). \<not> blk_is_header b"
  shows "fold v_step elems vs =
     vs\<lparr>v_content := v_content vs @ map plain_block (filter survives elems),
        v_images := v_images vs @ concat (map child_images (filter survives elems))\<rparr>"
  using assms
proof (induction elems arbitrary: vs)
  case Nil
  then show ?case by simp
next
  case (Cons e elems)
  then have nh: "\<not> is_generic_header (Some e)"
    and rest: "\<forall>c \<in> set elems. \<not> is_generic_header (Some c)" by simp_all
  have same: "map (\<lambda>b. if blk_is_header b then b\<lparr>blk_images := new\<rparr> else b) (v_content vs)
        = v_content vs" for new
    using Cons.prems(2) by (induction "v_content vs") (auto simp: map_idI)
  show ?case
  proof (cases "survives e")
    case True
    then have k: "\<not> link_heavy e" "\<not> empty_block e" by (simp_all add: survives_def)
    let ?vs = "v_step e vs"
    have st: "?vs = vs\<lparr>v_content := v_content vs @ [plain_block e],
        v_images := v_images vs @ child_images e\<rparr>"
      by (simp add: v_step_keep [OF nh k] same)
    have "\<forall>b \<in> set (v_content ?vs). \<not> blk_is_header b"
      using Cons.prems(2) by (simp add: st)
    from Cons.IH [OF rest this] True show ?thesis by (simp add: st)
  next
    case False
    then have "link_heavy e \<or> empty_block e" by (auto simp: survives_def)
    then have "v_step e vs = vs" using nh by (simp add: v_step_skip)
    with Cons.IH [OF rest Cons.prems(2)] False show ?thesis by simp
  qed
qed

text \<open>
  C2. When no content-level element of a document is a header and at least one of them
  passes the boilerplate tests, the result is one section with the header \<^verbatim>\<open>Intro\<close>; its
  blocks are the blocks of the elements that pass the tests, in document order.
\<close>

theorem headerless_document_one_intro_section:
  assumes "elems = content_children (find_content_container (strip_boilerplate body))"
    and "\<forall>c \<in> set elems. \<not> is_generic_header (Some c)"
    and "filter survives elems \<noteq> []"
  shows "sections_of_body body =
     Inr [\<lparr>sec_header = ''Intro'',
           sec_content = map plain_block (filter survives elems),
           sec_images = concat (map child_images (filter survives elems))\<rparr>]"
proof -
  have "fold v_step elems v_initial =
     v_initial\<lparr>v_content := v_content v_initial @ map plain_block (filter survives elems),
        v_images := v_images v_initial @ concat (map child_images (filter survives elems))\<rparr>"
    by (rule fold_no_headers [OF assms(2)]) (simp add: v_initial_def)
  then have "v_emit (fold v_step elems v_initial) =
     [\<lparr>sec_header = ''Intro'',
           sec_content = map plain_block (filter survives elems),
           sec_images = concat (map child_images (filter survives elems))\<rparr>]"
    using assms(3) by (simp add: v_emit_def v_initial_def header_or_intro_def)
  then show ?thesis
    by (simp add: sections_of_body_def segment_eq assms(1) [symmetric])
qed

theorem headerless_document_one_intro_section_witness:
  "sections_of_body
     (Tag ''body'' []
        [Tag ''div'' []
           [Tag ''p'' [] [NavigableString ''Hello''],
            Tag ''script'' [] [NavigableString ''var x;''],
            Tag ''p'' [] [NavigableString '' ''],
            Tag ''p'' [] [Tag ''img'' [(''src'', AttrStr ''a.png'')] []]]])
   = Inr [\<lparr>sec_header = ''Intro'',
           sec_content =
             [plain_block (Tag ''p'' [] [NavigableString ''Hello'']),
              plain_block (Tag ''p'' [] [Tag ''img'' [(''src'', AttrStr ''a.png'')] []])],
           sec_images = [''a.png'']\<rparr>]"
proof -
  let ?p1 = "Tag ''p'' [] [NavigableString ''Hello'']"
  let ?p2 = "Tag ''p'' [] [NavigableString '' '']"
  let ?p3 = "Tag ''p'' [] [Tag ''img'' [(''src'', AttrStr ''a.png'')] []]"
  let ?body = "Tag ''body'' []
        [Tag ''div'' [] [?p1, Tag ''script'' [] [NavigableString ''var x;''], ?p2, ?p3]]"
  have e: "[?p1, ?p2, ?p3] = content_children (find_content_container (strip_boilerplate ?body))"
    by code_simp
  have h: "\<forall>c \<in> set [?p1, ?p2, ?p3]. \<not> is_generic_header (Some c)" by code_simp
  have f: "filter survives [?p1, ?p2, ?p3] = [?p1, ?p3]" by code_simp
  have i: "concat (map child_images [?p1, ?p3]) = [''a.png'']" by code_simp
  have n: "filter survives [?p1, ?p2, ?p3] \<noteq> []" unfolding f by simp
  from headerless_document_one_intro_section [OF e h n] show ?thesis
    unfolding f i by simp
qed

section \<open>The image list of a section\<close>

lemma resolve_and_validate_eq:
  "resolve_and_validate_images raw d v = first_occurrences (kept_references d v raw)"
  using resolve_loop_eq [of d v "[]" raw]
  by (simp add: resolve_and_validate_images_def)

lemma kept_references_append:
  "kept_references d v (xs @ ys) = kept_references d v xs @ kept_references d v ys"
  by (simp add: kept_references_def List.map_filter_def)

lemma kept_references_concat:
  "kept_references d v (concat xss) = concat (map (kept_references d v) xss)"
proof (induction xss)
  case Nil
  then show ?case by (simp add: kept_references_def List.map_filter_def)
next
  case (Cons xs xss)
  then show ?case by (simp add: kept_references_append)
qed

lemma first_occurrences_idem: "first_occurrences (first_occurrences xs) = first_occurrences xs"
  by (simp add: first_occurrences_distinct)

lemma first_occurrences_concat:
  "first_occurrences (concat (map first_occurrences xss)) = first_occurrences (concat xss)"
proof (induction xss)
  case Nil
  then show ?case by simp
next
  case (Cons xs xss)
  have "first_occurrences (concat (map first_occurrences (xs # xss)))
        = first_occurrences (first_occurrences xs @ concat (map first_occurrences xss))"
    by simp
  also have "\<dots> = first_occurrences xs
        @ first_occurrences (filter (\<lambda>y. y \<notin> set xs) (concat (map first_occurrences xss)))"
    by (simp add: first_occurrences_append first_occurrences_idem)
  also have "first_occurrences (filter (\<lambda>y. y \<notin> set xs) (concat (map first_occurrences xss)))
        = first_occurrences (filter (\<lambda>y. y \<notin> set xs) (concat xss))"
    by (simp only: first_occurrences_filter Cons.IH)
  also have "first_occurrences xs @ first_occurrences (filter (\<lambda>y. y \<notin> set xs) (concat xss))
        = first_occurrences (xs @ concat xss)"
    by (simp add: first_occurrences_append)
  finally show ?case by simp
qed

lemma first_occurrences_absorb:
  "set ys \<subseteq> set xs \<Longrightarrow> first_occurrences (xs @ ys) = first_occurrences xs"
proof -
  assume "set ys \<subseteq> set xs"
  then have "filter (\<lambda>y. y \<notin> set xs) ys = []" by (auto simp: filter_empty_conv)
  then show ?thesis by (simp add: first_occurrences_append)
qed

lemma content_shape_raw:
  assumes "content_shape cnt imgs"
  shows "first_occurrences imgs = first_occurrences (concat (map blk_images cnt))"
  using assms unfolding content_shape_def
proof (elim disjE exE conjE)
  assume "concat (map blk_images cnt) = imgs"
  then show ?thesis by simp
next
  fix hb rest own
  assume c: "cnt = hb # rest" "blk_images hb = imgs" "imgs = own @ concat (map blk_images rest)"
  have "set (concat (map blk_images rest)) \<subseteq> set imgs"
    by (subst c(3)) simp
  then have "first_occurrences (imgs @ concat (map blk_images rest)) = first_occurrences imgs"
    by (rule first_occurrences_absorb)
  with c(1,2) show ?thesis by simp
qed

lemma content_shape_resolved:
  assumes "content_shape cnt imgs"
  shows "resolve_and_validate_images imgs d v
         = first_occurrences
             (concat (map (\<lambda>b. resolve_and_validate_images (blk_images b) d v) cnt))"
  using assms unfolding content_shape_def
proof (elim disjE exE conjE)
  assume a: "concat (map blk_images cnt) = imgs"
  have "concat (map (\<lambda>b. resolve_and_validate_images (blk_images b) d v) cnt)
        = concat (map first_occurrences (map (kept_references d v) (map blk_images cnt)))"
    by (simp add: resolve_and_validate_eq o_def)
  then have "first_occurrences
               (concat (map (\<lambda>b. resolve_and_validate_images (blk_images b) d v) cnt))
        = first_occurrences (concat (map (kept_references d v) (map blk_images cnt)))"
    by (simp only: first_occurrences_concat)
  also have "\<dots> = first_occurrences (kept_references d v (concat (map blk_images cnt)))"
    by (simp only: kept_references_concat)
  finally show ?thesis by (simp add: resolve_and_validate_eq a)
next
  fix hb rest own
  assume c: "cnt = hb # rest" "blk_images hb = imgs" "imgs = own @ concat (map blk_images rest)"
  let ?R = "concat (map (\<lambda>b. resolve_and_validate_images (blk_images b) d v) rest)"
  have k: "kept_references d v imgs
        = kept_references d v own @ concat (map (kept_references d v) (map blk_images rest))"
    by (subst c(3)) (simp only: kept_references_append kept_references_concat)
  have "set ?R = set (concat (map (kept_references d v) (map blk_images rest)))"
    by (simp add: resolve_and_validate_eq)
  also have "\<dots> \<subseteq> set (kept_references d v imgs)"
    by (subst k) simp
  finally have sub: "set ?R \<subseteq> set (resolve_and_validate_images imgs d v)"
    by (simp add: resolve_and_validate_eq)
  have "first_occurrences (resolve_and_validate_images imgs d v @ ?R)
        = first_occurrences (resolve_and_validate_images imgs d v)"
    using sub by (rule first_occurrences_absorb)
  also have "\<dots> = resolve_and_validate_images imgs d v"
    by (simp add: resolve_and_validate_eq first_occurrences_idem)
  finally show ?thesis using c(1,2) by simp
qed

lemma v_emit_shaped:
  "sections_shaped vs \<Longrightarrow> sec \<in> set (v_emit vs) \<Longrightarrow>
   content_shape (sec_content sec) (sec_images sec)"
  by (auto simp: sections_shaped_def v_emit_def split: if_splits)

lemma v_step_shaped:
  assumes "sections_shaped vs"
  shows "sections_shaped (v_step e vs)"
proof (cases "is_generic_header (Some e)")
  case True
  have "content_shape
          [\<lparr>blk_tag = tag_name e, blk_text = strip (get_text e), blk_html = e,
            blk_images = child_images e, blk_is_header = True\<rparr>] (child_images e)"
    by (simp add: content_shape_def)
  with True assms show ?thesis
    by (simp add: v_step_def sections_shaped_def v_emit_shaped)
next
  case False
  show ?thesis
  proof (cases "link_heavy e \<or> empty_block e")
    case True
    with False assms show ?thesis by (simp add: v_step_skip)
  next
    case kept: False
    let ?new = "v_images vs @ child_images e"
    let ?upd = "\<lambda>b. if blk_is_header b then b\<lparr>blk_images := ?new\<rparr> else b"
    have cur: "content_shape (v_content vs) (v_images vs)"
      using assms by (simp add: sections_shaped_def)
    have plain: "map ?upd bs = bs" if "\<forall>b \<in> set bs. \<not> blk_is_header b"
      for bs :: "string list block list"
      using that by (induction bs) auto
    have "content_shape (map ?upd (v_content vs) @ [plain_block e]) ?new"
      using cur unfolding content_shape_def
    proof (elim disjE exE conjE)
      assume a: "\<forall>b \<in> set (v_content vs). \<not> blk_is_header b"
        "concat (map blk_images (v_content vs)) = v_images vs"
      have "(\<forall>b \<in> set (map ?upd (v_content vs) @ [plain_block e]). \<not> blk_is_header b)
            \<and> concat (map blk_images (map ?upd (v_content vs) @ [plain_block e])) = ?new"
        using a by (simp add: plain [OF a(1)] plain_block_def)
      then show "(\<forall>b \<in> set (map ?upd (v_content vs) @ [plain_block e]). \<not> blk_is_header b)
            \<and> concat (map blk_images (map ?upd (v_content vs) @ [plain_block e])) = ?new
          \<or> (\<exists>hb rest own.
               map ?upd (v_content vs) @ [plain_block e] = hb # rest \<and> blk_is_header hb
               \<and> blk_images hb = ?new \<and> (\<forall>b \<in> set rest. \<not> blk_is_header b)
               \<and> ?new = own @ concat (map blk_images rest))"
        by (rule disjI1)
    next
      fix hb rest own
      assume b: "v_content vs = hb # rest" "blk_is_header hb" "blk_images hb = v_images vs"
        "\<forall>b \<in> set rest. \<not> blk_is_header b" "v_images vs = own @ concat (map blk_images rest)"
      let ?hb = "hb\<lparr>blk_images := ?new\<rparr>"
      let ?rest = "rest @ [plain_block e]"
      have "map ?upd (v_content vs) @ [plain_block e] = ?hb # ?rest"
        using b(1,2) by (simp add: plain [OF b(4)])
      moreover have "blk_is_header ?hb" using b(2) by simp
      moreover have "blk_images ?hb = ?new" by simp
      moreover have "\<forall>b \<in> set ?rest. \<not> blk_is_header b" using b(4) by simp
      moreover have "?new = own @ concat (map blk_images ?rest)"
        by (subst b(5)) (simp add: plain_block_def)
      ultimately show "(\<forall>b \<in> set (map ?upd (v_content vs) @ [plain_block e]). \<not> blk_is_header b)
            \<and> concat (map blk_images (map ?upd (v_content vs) @ [plain_block e])) = ?new
          \<or> (\<exists>hb rest own.
               map ?upd (v_content vs) @ [plain_block e] = hb # rest \<and> blk_is_header hb
               \<and> blk_images hb = ?new \<and> (\<forall>b \<in> set rest. \<not> blk_is_header b)
               \<and> ?new = own @ concat (map blk_images rest))"
        by blast
    qed
    then show ?thesis
      using False kept assms
      by (simp add: v_step_keep sections_shaped_def)
  qed
qed

lemma fold_v_step_shaped: "sections_shaped vs \<Longrightarrow> sections_shaped (fold v_step elems vs)"
  by (induction elems arbitrary: vs) (simp_all add: v_step_shaped)

lemma v_initial_shaped: "sections_shaped v_initial"
  by (simp add: sections_shaped_def v_initial_def content_shape_def)

lemma segment_sections_shaped:
  "segment elems = Inr secs \<Longrightarrow> sec \<in> set secs \<Longrightarrow>
   content_shape (sec_content sec) (sec_images sec)"
  using v_emit_shaped [OF fold_v_step_shaped [OF v_initial_shaped], of sec elems]
  by (simp add: segment_eq)

lemma v_step_header:
  "is_generic_header (Some e) \<Longrightarrow>
   v_step e vs =
     \<lparr>v_sections = v_emit vs,
      v_header = Some (strip (get_text e)),
      v_content = [\<lparr>blk_tag = tag_name e, blk_text = strip (get_text e),
                    blk_html = e, blk_images = child_images e, blk_is_header = True\<rparr>],
      v_images = child_images e\<rparr>"
  by (simp only: v_step_def if_True)

text \<open>
  C9, as amended. For every section of the result, the section's list and the lists of its
  blocks, one after the other, have the same values in the same order of first occurrence;
  and once the section's list and the block lists have been resolved and validated, the
  section's list is exactly the order-preserving union of the block lists, without
  repetition.
\<close>

theorem section_images_aggregate:
  assumes "segment elems = Inr secs" and "sec \<in> set secs"
  shows "first_occurrences (sec_images sec)
           = first_occurrences (concat (map blk_images (sec_content sec)))
         \<and> sec_images (resolve_section d v sec)
           = first_occurrences (concat (map blk_images (sec_content (resolve_section d v sec))))"
proof -
  have sh: "content_shape (sec_content sec) (sec_images sec)"
    using assms by (rule segment_sections_shaped)
  have "map blk_images (sec_content (resolve_section d v sec))
        = map (\<lambda>b. resolve_and_validate_images (blk_images b) d v) (sec_content sec)"
    by (simp add: resolve_section_def resolve_block_def o_def)
  moreover have "sec_images (resolve_section d v sec)
        = resolve_and_validate_images (sec_images sec) d v"
    by (simp add: resolve_section_def)
  ultimately show ?thesis
    using content_shape_raw [OF sh] content_shape_resolved [OF sh, of d v] by simp
qed

theorem section_images_aggregate_witness:
  "first_occurrences [''h.png'', ''a.png'', ''a.png'']
     = first_occurrences
         (concat (map blk_images
            [\<lparr>blk_tag = ''h1'', blk_text = ''T'',
               blk_html = Tag ''h1'' []
                 [NavigableString ''T'', Tag ''img'' [(''src'', AttrStr ''h.png'')] []],
               blk_images = [''h.png'', ''a.png'', ''a.png''], blk_is_header = True\<rparr>,
             plain_block (Tag ''p'' [] [Tag ''img'' [(''src'', AttrStr ''a.png'')] []]),
             plain_block (Tag ''p'' [] [Tag ''img'' [(''src'', AttrStr ''a.png'')] []])]))
   \<and> resolve_and_validate_images [''h.png'', ''a.png'', ''a.png''] ''OEBPS''
       {''OEBPS/a.png'', ''OEBPS/h.png''}
     = first_occurrences
         (concat (map blk_images
            (map (resolve_block ''OEBPS'' {''OEBPS/a.png'', ''OEBPS/h.png''})
               [\<lparr>blk_tag = ''h1'', blk_text = ''T'',
                  blk_html = Tag ''h1'' []
                    [NavigableString ''T'', Tag ''img'' [(''src'', AttrStr ''h.png'')] []],
                  blk_images = [''h.png'', ''a.png'', ''a.png''], blk_is_header = True\<rparr>,
                plain_block (Tag ''p'' [] [Tag ''img'' [(''src'', AttrStr ''a.png'')] []]),
                plain_block (Tag ''p'' [] [Tag ''img'' [(''src'', AttrStr ''a.png'')] []])])))"
proof -
  let ?h = "Tag ''h1'' [] [NavigableString ''T'', Tag ''img'' [(''src'', AttrStr ''h.png'')] []]"
  let ?e = "Tag ''p'' [] [Tag ''img'' [(''src'', AttrStr ''a.png'')] []]"
  let ?hb = "\<lparr>blk_tag = ''h1'', blk_text = ''T'', blk_html = ?h,
               blk_images = [''h.png'', ''a.png'', ''a.png''], blk_is_header = True\<rparr>"
  let ?sec = "\<lparr>sec_header = ''T'', sec_content = [?hb, plain_block ?e, plain_block ?e],
               sec_images = [''h.png'', ''a.png'', ''a.png'']\<rparr>"
  have hh: "is_generic_header (Some ?h)" by code_simp
  have ht: "strip (get_text ?h) = ''T''" by code_simp
  have hi: "child_images ?h = [''h.png'']" by code_simp
  have h: "\<not> is_generic_header (Some ?e)" by code_simp
  have l: "\<not> link_heavy ?e" by code_simp
  have m: "\<not> empty_block ?e" by code_simp
  have i: "child_images ?e = [''a.png'']" by code_simp
  have s1: "v_step ?h v_initial =
      \<lparr>v_sections = [], v_header = Some ''T'',
       v_content = [\<lparr>blk_tag = ''h1'', blk_text = ''T'', blk_html = ?h,
               blk_images = [''h.png''], blk_is_header = True\<rparr>],
       v_images = [''h.png'']\<rparr>"
    by (simp add: v_step_header [OF hh] ht hi v_emit_def v_initial_def)
  have "v_emit (fold v_step [?h, ?e, ?e] v_initial) = [?sec]"
    by (simp add: s1 v_step_keep [OF h l m] i v_emit_def header_or_intro_def)
  then have seg: "segment [?h, ?e, ?e] = Inr [?sec]"
    by (simp only: segment_eq)
  have mem: "?sec \<in> set [?sec]" by simp
  from section_images_aggregate [OF seg mem, of "''OEBPS''" "{''OEBPS/a.png'', ''OEBPS/h.png''}"]
  show ?thesis by (simp add: resolve_section_def)
qed

text \<open>
  Before resolution the list of a section is not free of repetitions: two paragraphs that
  show the same image give a section whose list names the image twice.
\<close>

theorem aggregate_repeats_reference:
  "segment
     [Tag ''p'' [] [Tag ''img'' [(''src'', AttrStr ''a.png'')] []],
      Tag ''p'' [] [Tag ''img'' [(''src'', AttrStr ''a.png'')] []]]
   = Inr [\<lparr>sec_header = ''Intro'',
           sec_content =
             [plain_block (Tag ''p'' [] [Tag ''img'' [(''src'', AttrStr ''a.png'')] []]),
              plain_block (Tag ''p'' [] [Tag ''img'' [(''src'', AttrStr ''a.png'')] []])],
           sec_images = [''a.png'', ''a.png'']\<rparr>]
   \<and> [''a.png'', ''a.png'']
       \<noteq> first_occurrences
           (concat (map blk_images
             [plain_block (Tag ''p'' [] [Tag ''img'' [(''src'', AttrStr ''a.png'')] []]),
              plain_block (Tag ''p'' [] [Tag ''img'' [(''src'', AttrStr ''a.png'')] []])]))"
proof -
  let ?e = "Tag ''p'' [] [Tag ''img'' [(''src'', AttrStr ''a.png'')] []]"
  have h: "\<not> is_generic_header (Some ?e)" by code_simp
  have l: "\<not> link_heavy ?e" by code_simp
  have m: "\<not> empty_block ?e" by code_simp
  have i: "child_images ?e = [''a.png'']" by code_simp
  have "v_emit (fold v_step [?e, ?e] v_initial)
        = [\<lparr>sec_header = ''Intro'', sec_content = [plain_block ?e, plain_block ?e],
            sec_images = [''a.png'', ''a.png'']\<rparr>]"
    by (simp add: v_step_keep [OF h l m] i v_emit_def v_initial_def header_or_intro_def)
  then have "segment [?e, ?e]
        = Inr [\<lparr>sec_header = ''Intro'', sec_content = [plain_block ?e, plain_block ?e],
            sec_images = [''a.png'', ''a.png'']\<rparr>]"
    by (simp only: segment_eq)
  moreover have "first_occurrences (concat (map blk_images [plain_block ?e, plain_block ?e]))
        = [''a.png'']"
    by (simp add: plain_block_def i)
  ultimately show ?thesis by simp
qed


end
